theory Spec2Isabelle
  imports Main "HOL-Library.Word" "HOL-Library.Code_Target_Numeral"
begin

section \<open>Bytes, text and values\<close>

text \<open>
  A byte is an 8-bit word. A Python \<open>str\<close> is a sequence of Unicode code points; the
  model keeps the code points as natural numbers, so that \<open>len\<close> of a string and the
  length of its UTF-8 encoding are different numbers, as they are in the source.
\<close>

type_synonym byte = "8 word"
type_synonym pystr = "nat list"

text \<open>The two exceptions the serializer's library calls can raise.\<close>

datatype py_exception = StructError | UnicodeEncodeError

text \<open>\<open>class BinaryTypeMarker(IntEnum)\<close> and the integer each member stands for.\<close>

datatype BinaryTypeMarker =
  Null | Int32 | Int64 | Double | Boolean | DateTime | String | Bytes | Decimal

fun marker_value :: "BinaryTypeMarker \<Rightarrow> nat" where
  "marker_value Null = 0"
| "marker_value Int32 = 1"
| "marker_value Int64 = 2"
| "marker_value Double = 3"
| "marker_value Boolean = 4"
| "marker_value DateTime = 5"
| "marker_value String = 6"
| "marker_value Bytes = 7"
| "marker_value Decimal = 8"

text \<open>
  The values a row can hold (\<open>Dict[str, Any]\<close>). A Python \<open>float\<close> is an IEEE-754
  binary64 and is kept as its 64-bit pattern, which is what \<open>struct.pack('<d', _)\<close>
  writes. \<open>PyOther t\<close> is an object of any other type whose \<open>str()\<close> is \<open>t\<close>.
\<close>

datatype pyvalue =
  PyNone
| PyBool bool
| PyInt int
| PyFloat "64 word"
| PyStr pystr
| PyBytes "byte list"
| PyOther pystr

text \<open>
  The \<open>isinstance\<close> tests of \<open>_encode_value\<close>. In Python \<open>bool\<close> is a subclass of
  \<open>int\<close>, so \<open>isinstance(True, int)\<close> holds, and \<open>True\<close> and \<open>False\<close> are the
  integers 1 and 0.
\<close>

fun isinstance_bool :: "pyvalue \<Rightarrow> bool" where
  "isinstance_bool (PyBool _) = True"
| "isinstance_bool _ = False"

fun isinstance_int :: "pyvalue \<Rightarrow> bool" where
  "isinstance_int (PyBool _) = True"
| "isinstance_int (PyInt _) = True"
| "isinstance_int _ = False"

fun isinstance_float :: "pyvalue \<Rightarrow> bool" where
  "isinstance_float (PyFloat _) = True"
| "isinstance_float _ = False"

fun isinstance_str :: "pyvalue \<Rightarrow> bool" where
  "isinstance_str (PyStr _) = True"
| "isinstance_str _ = False"

fun isinstance_bytes :: "pyvalue \<Rightarrow> bool" where
  "isinstance_bytes (PyBytes _) = True"
| "isinstance_bytes _ = False"

fun truthy :: "pyvalue \<Rightarrow> bool" where
  "truthy (PyBool b) = b"
| "truthy _ = False"

fun int_of :: "pyvalue \<Rightarrow> int" where
  "int_of (PyBool b) = (if b then 1 else 0)"
| "int_of (PyInt i) = i"
| "int_of _ = 0"

fun float_bits :: "pyvalue \<Rightarrow> 64 word" where
  "float_bits (PyFloat w) = w"
| "float_bits _ = 0"

fun str_of :: "pyvalue \<Rightarrow> pystr" where
  "str_of (PyStr s) = s"
| "str_of _ = []"

fun bytes_of :: "pyvalue \<Rightarrow> byte list" where
  "bytes_of (PyBytes b) = b"
| "bytes_of _ = []"

text \<open>
  \<open>str(value)\<close>. The serializer calls it only in the last branch of \<open>_encode_value\<close>,
  which a value reaches only when every type test before it has failed.
\<close>

fun py_str :: "pyvalue \<Rightarrow> pystr" where
  "py_str (PyOther t) = t"
| "py_str (PyStr s) = s"
| "py_str _ = []"

section \<open>Library calls: struct.pack and str.encode\<close>

text \<open>Little-endian bytes of a natural number, and the number they stand for.\<close>

fun le_bytes :: "nat \<Rightarrow> nat \<Rightarrow> byte list" where
  "le_bytes 0 v = []"
| "le_bytes (Suc n) v = of_nat (v mod 256) # le_bytes n (v div 256)"

fun le_nat :: "byte list \<Rightarrow> nat" where
  "le_nat [] = 0"
| "le_nat (b # bs) = unat b + 256 * le_nat bs"

text \<open>\<open>struct.pack\<close> raises \<open>struct.error\<close> when the argument does not fit the format.\<close>

definition pack_I :: "nat \<Rightarrow> py_exception + byte list" where
  "pack_I n = (if n < 2 ^ 32 then Inr (le_bytes 4 n) else Inl StructError)"

definition pack_i :: "int \<Rightarrow> py_exception + byte list" where
  "pack_i v =
     (if - 2147483648 \<le> v \<and> v \<le> 2147483647
      then Inr (le_bytes 4 (nat (v mod 2 ^ 32))) else Inl StructError)"

definition pack_q :: "int \<Rightarrow> py_exception + byte list" where
  "pack_q v =
     (if - 9223372036854775808 \<le> v \<and> v \<le> 9223372036854775807
      then Inr (le_bytes 8 (nat (v mod 2 ^ 64))) else Inl StructError)"

definition pack_d :: "64 word \<Rightarrow> byte list" where
  "pack_d w = le_bytes 8 (unat w)"

text \<open>
  UTF-8 of one code point, as numbers below 256. A surrogate (U+D800 to U+DFFF) has no
  UTF-8 form: \<open>str.encode('utf-8')\<close> raises \<open>UnicodeEncodeError\<close> on it. A number
  from 1114112 on is no code point and cannot occur in a \<open>str\<close>.
\<close>

definition utf8_cp :: "nat \<Rightarrow> nat list option" where
  "utf8_cp c =
     (if c < 128 then Some [c]
      else if c < 2048 then Some [192 + c div 64, 128 + c mod 64]
      else if 55296 \<le> c \<and> c < 57344 then None
      else if c < 65536 then
        Some [224 + c div 4096, 128 + (c div 64) mod 64, 128 + c mod 64]
      else if c < 1114112 then
        Some [240 + c div 262144, 128 + (c div 4096) mod 64,
              128 + (c div 64) mod 64, 128 + c mod 64]
      else None)"

fun str_encode :: "pystr \<Rightarrow> py_exception + byte list" where
  "str_encode [] = Inr []"
| "str_encode (c # cs) =
     (case utf8_cp c of
        None \<Rightarrow> Inl UnicodeEncodeError
      | Some us \<Rightarrow>
          (case str_encode cs of
             Inl e \<Rightarrow> Inl e
           | Inr rest \<Rightarrow> Inr (map of_nat us @ rest)))"

section \<open>BinaryRowSerializer\<close>

text \<open>
  \<open>_encode_value\<close>: the chain of type tests in the order of the source. The last branch
  calls the function again on the text of the value.
\<close>

function encode_value :: "pyvalue \<Rightarrow> py_exception + (BinaryTypeMarker \<times> byte list)" where
  "encode_value v =
     (if v = PyNone then Inr (Null, [])
      else if isinstance_bool v then Inr (Boolean, [if truthy v then 1 else 0])
      else if isinstance_int v then
        (if - 2147483648 \<le> int_of v \<and> int_of v \<le> 2147483647
         then (case pack_i (int_of v) of Inl e \<Rightarrow> Inl e | Inr bs \<Rightarrow> Inr (Int32, bs))
         else (case pack_q (int_of v) of Inl e \<Rightarrow> Inl e | Inr bs \<Rightarrow> Inr (Int64, bs)))
      else if isinstance_float v then Inr (Double, pack_d (float_bits v))
      else if isinstance_str v then
        (case str_encode (str_of v) of
           Inl e \<Rightarrow> Inl e
         | Inr encoded \<Rightarrow>
             (case pack_I (length encoded) of
                Inl e \<Rightarrow> Inl e
              | Inr len_bytes \<Rightarrow> Inr (String, len_bytes @ encoded)))
      else if isinstance_bytes v then
        (case pack_I (length (bytes_of v)) of
           Inl e \<Rightarrow> Inl e
         | Inr len_bytes \<Rightarrow> Inr (Bytes, len_bytes @ bytes_of v))
      else encode_value (PyStr (py_str v)))"
  by pat_completeness auto

termination
proof (relation "measure (\<lambda>v. if isinstance_str v then 0 else 1)")
  show "wf (measure (\<lambda>v. if isinstance_str v then 0 else (1::nat)))" by simp
next
  fix v :: pyvalue
  assume "\<not> isinstance_str v"
  then show "(PyStr (py_str v), v) \<in> measure (\<lambda>v. if isinstance_str v then 0 else 1)"
    by simp
qed

declare encode_value.simps [simp del]

text \<open>\<open>_bytes_to_hex\<close>: two upper-case hexadecimal digits for each byte, joined by spaces.\<close>

definition hex_digit :: "nat \<Rightarrow> char" where
  "hex_digit d = ''0123456789ABCDEF'' ! d"

definition byte_hex :: "byte \<Rightarrow> string" where
  "byte_hex b = [hex_digit (unat b div 16), hex_digit (unat b mod 16)]"

fun join_space :: "string list \<Rightarrow> string" where
  "join_space [] = []"
| "join_space [s] = s"
| "join_space (s # t # ts) = s @ '' '' @ join_space (t # ts)"

definition bytes_to_hex :: "byte list \<Rightarrow> string" where
  "bytes_to_hex data = join_space (map byte_hex data)"

text \<open>
  \<open>SerializationStep\<close>. The fields \<open>value\<close> and \<open>description\<close> are display text
  rendered with Python's formatting of arbitrary values; they do not affect the bytes or
  the offsets and are left out.
\<close>

record SerializationStep =
  offset :: nat
  size' :: nat
  hex_bytes :: string

definition mk_step :: "nat \<Rightarrow> nat \<Rightarrow> byte list \<Rightarrow> SerializationStep" where
  "mk_step off n bs = \<lparr>offset = off, size' = n, hex_bytes = bytes_to_hex bs\<rparr>"

text \<open>
  A row is a \<open>dict\<close>, which keeps its items in the order of insertion: the list of its
  items. The keys of a \<open>dict\<close> are distinct; nothing below needs that.
\<close>

type_synonym row = "(pystr \<times> pyvalue) list"

text \<open>
  The loop of \<open>serialize\<close> over \<open>row.items()\<close>, with the running offset, the buffer
  written so far and the steps recorded so far. One iteration makes four writes and
  records four steps (length of the name, name, marker, payload); the recursive call
  carries them in that order. The library calls that can raise come in the order of the
  source: \<open>name.encode\<close>, \<open>struct.pack\<close> of the length, \<open>_encode_value\<close>.
\<close>

fun serialize_columns ::
  "row \<Rightarrow> nat \<Rightarrow> byte list \<Rightarrow> SerializationStep list
     \<Rightarrow> py_exception + (byte list \<times> SerializationStep list)" where
  "serialize_columns [] off buffer steps = Inr (buffer, steps)"
| "serialize_columns ((name, v) # rest) off buffer steps =
     (case str_encode name of
        Inl e \<Rightarrow> Inl e
      | Inr name_bytes \<Rightarrow>
     (case pack_I (length name_bytes) of
        Inl e \<Rightarrow> Inl e
      | Inr len_bytes \<Rightarrow>
     (case encode_value v of
        Inl e \<Rightarrow> Inl e
      | Inr (type_marker, value_bytes) \<Rightarrow>
          serialize_columns rest
            (off + 4 + length name_bytes + 1 + length value_bytes)
            (buffer @ len_bytes @ name_bytes
               @ [of_nat (marker_value type_marker)] @ value_bytes)
            (steps @
              [mk_step off 4 len_bytes,
               mk_step (off + 4) (length name_bytes) name_bytes,
               mk_step (off + 4 + length name_bytes) 1
                 [of_nat (marker_value type_marker)],
               mk_step (off + 4 + length name_bytes + 1) (length value_bytes)
                 value_bytes]))))"

definition serialize :: "row \<Rightarrow> py_exception + (byte list \<times> SerializationStep list)" where
  "serialize r =
     (case pack_I (length r) of
        Inl e \<Rightarrow> Inl e
      | Inr count_bytes \<Rightarrow>
          serialize_columns r 4 count_bytes [mk_step 0 4 count_bytes])"

text \<open>The encoder of the specification: the buffer \<open>serialize\<close> returns.\<close>

definition encode :: "row \<Rightarrow> py_exception + byte list" where
  "encode r = (case serialize r of Inl e \<Rightarrow> Inl e | Inr (buffer, steps) \<Rightarrow> Inr buffer)"

section \<open>The decoder\<close>

text \<open>
  The decoder is the C\# class the three patch scripts edit
  (\<open>src/SharpCoreDB/DatabaseExtensions.cs\<close>); the class itself is not among the
  sources. What the scripts show of it are the signatures of its Read methods, each
  taking \<open>ReadOnlySpan<byte> data\<close> and \<open>ref int offset\<close>, the first statement of
  \<open>ReadString\<close> and \<open>ReadBytes\<close>, and the text of the bounds checks they insert. The
  checks below are those texts; everything else of the decoder follows section 4.3 of the
  specification.
\<close>

datatype failure =
  TruncatedData | InvalidLength | UnsupportedType | MalformedText | OutOfRange

text \<open>
  \<open>offset\<close>, \<open>length\<close> and \<open>data.Length\<close> are C\# \<open>int\<close>: 32-bit two's complement,
  and \<open>+\<close> on them wraps around (the language's default, unchecked, arithmetic).
\<close>

definition wrap32 :: "int \<Rightarrow> int" where
  "wrap32 x = (x + 2147483648) mod 4294967296 - 2147483648"

definition wrap64 :: "int \<Rightarrow> int" where
  "wrap64 x = (x + 9223372036854775808) mod 18446744073709551616 - 9223372036854775808"

text \<open>
  The check the scripts insert at the top of a fixed-size read,
  \<open>if (offset + N > data.Length) throw ...\<close>, for \<open>N\<close> = 4 (\<open>ReadInt32\<close>),
  8 (\<open>ReadInt64\<close>), 1 (\<open>ReadBoolean\<close>) and 16 (\<open>ReadGuid\<close>).
\<close>

definition fixed_check :: "byte list \<Rightarrow> int \<Rightarrow> int \<Rightarrow> bool" where
  "fixed_check data off n = (wrap32 (off + n) > int (length data))"

text \<open>
  The check the scripts insert in \<open>ReadString\<close> and \<open>ReadBytes\<close> after
  \<open>var length = ReadInt32(data, ref offset);\<close>, namely
  \<open>if (length < 0 || offset + length > data.Length) throw ...\<close>.
\<close>

definition length_check :: "byte list \<Rightarrow> int \<Rightarrow> int \<Rightarrow> bool" where
  "length_check data off len = (len < 0 \<or> wrap32 (off + len) > int (length data))"

text \<open>
  Modelled from the spec: the copy of \<open>n\<close> bytes at \<open>start\<close> out of the buffer, which
  the bodies of the Read methods (not among the sources) perform once their check has
  passed. A span access is range-checked by the runtime; a copy that leaves the buffer is
  the failure \<open>OutOfRange\<close>, an attempted read past the end.
\<close>

definition slice :: "byte list \<Rightarrow> int \<Rightarrow> int \<Rightarrow> failure + byte list" where
  "slice data start n =
     (if 0 \<le> start \<and> 0 \<le> n \<and> start + n \<le> int (length data)
      then Inr (take (nat n) (drop (nat start) data)) else Inl OutOfRange)"

text \<open>
  Modelled from the spec: a fixed-size primitive read (section 4.3): the check first,
  \<open>TruncatedData\<close> when it fires, then the bytes and the advanced offset.
\<close>

definition read_fixed :: "byte list \<Rightarrow> int \<Rightarrow> int \<Rightarrow> failure + (byte list \<times> int)" where
  "read_fixed data off n =
     (if fixed_check data off n then Inl TruncatedData
      else (case slice data off n of
              Inl e \<Rightarrow> Inl e
            | Inr bs \<Rightarrow> Inr (bs, wrap32 (off + n))))"

text \<open>Modelled from the spec: \<open>ReadInt32\<close>, 4 bytes, signed little-endian.\<close>

definition ReadInt32 :: "byte list \<Rightarrow> int \<Rightarrow> failure + (int \<times> int)" where
  "ReadInt32 data off =
     (case read_fixed data off 4 of
        Inl e \<Rightarrow> Inl e
      | Inr (bs, off') \<Rightarrow> Inr (wrap32 (int (le_nat bs)), off'))"

text \<open>Modelled from the spec: \<open>ReadInt64\<close>, 8 bytes, signed little-endian.\<close>

definition ReadInt64 :: "byte list \<Rightarrow> int \<Rightarrow> failure + (int \<times> int)" where
  "ReadInt64 data off =
     (case read_fixed data off 8 of
        Inl e \<Rightarrow> Inl e
      | Inr (bs, off') \<Rightarrow> Inr (wrap64 (int (le_nat bs)), off'))"

text \<open>Modelled from the spec: \<open>ReadBoolean\<close>, 1 byte.\<close>

definition ReadBoolean :: "byte list \<Rightarrow> int \<Rightarrow> failure + (bool \<times> int)" where
  "ReadBoolean data off =
     (case read_fixed data off 1 of
        Inl e \<Rightarrow> Inl e
      | Inr (bs, off') \<Rightarrow> Inr (le_nat bs \<noteq> 0, off'))"

text \<open>Modelled from the spec: \<open>readDouble\<close>, the 8 bytes of an IEEE-754 binary64.\<close>

definition ReadDouble :: "byte list \<Rightarrow> int \<Rightarrow> failure + (64 word \<times> int)" where
  "ReadDouble data off =
     (case read_fixed data off 8 of
        Inl e \<Rightarrow> Inl e
      | Inr (bs, off') \<Rightarrow> Inr (of_nat (le_nat bs), off'))"

text \<open>Modelled from the spec: \<open>ReadGuid\<close>, 16 raw bytes.\<close>

definition ReadGuid :: "byte list \<Rightarrow> int \<Rightarrow> failure + (byte list \<times> int)" where
  "ReadGuid data off = read_fixed data off 16"

text \<open>Modelled from the spec: \<open>readUint32\<close>, which reads the column count.\<close>

definition ReadUInt32 :: "byte list \<Rightarrow> int \<Rightarrow> failure + (nat \<times> int)" where
  "ReadUInt32 data off =
     (case read_fixed data off 4 of
        Inl e \<Rightarrow> Inl e
      | Inr (bs, off') \<Rightarrow> Inr (le_nat bs, off'))"

text \<open>Modelled from the spec: the read of the one-byte marker of a column.\<close>

definition ReadMarker :: "byte list \<Rightarrow> int \<Rightarrow> failure + (nat \<times> int)" where
  "ReadMarker data off =
     (case read_fixed data off 1 of
        Inl e \<Rightarrow> Inl e
      | Inr (bs, off') \<Rightarrow> Inr (le_nat bs, off'))"

text \<open>
  Modelled from the spec: \<open>ReadBytes\<close>, the two-stage read of section 4.3: the length
  field, the check on it, and only then the copy of the payload. A negative length is
  \<open>InvalidLength\<close>; a length that leaves the buffer is \<open>TruncatedData\<close>, as in the
  truncation property of section 8 and in the message of the inserted check
  (\<open>truncated at offset\<close>).
\<close>

definition ReadBytes :: "byte list \<Rightarrow> int \<Rightarrow> failure + (byte list \<times> int)" where
  "ReadBytes data off =
     (case ReadInt32 data off of
        Inl e \<Rightarrow> Inl e
      | Inr (len, off1) \<Rightarrow>
          if length_check data off1 len
          then Inl (if len < 0 then InvalidLength else TruncatedData)
          else (case slice data off1 len of
                  Inl e \<Rightarrow> Inl e
                | Inr bs \<Rightarrow> Inr (bs, wrap32 (off1 + len))))"

text \<open>
  Modelled from the spec: the text a UTF-8 payload stands for. The specification does
  not say what a payload that is not UTF-8 decodes to; the model reports it as a failure
  of its own, \<open>MalformedText\<close>.
\<close>

definition continuation :: "nat \<Rightarrow> bool" where
  "continuation b = (128 \<le> b \<and> b < 192)"

fun utf8_decode :: "nat list \<Rightarrow> pystr option" where
  "utf8_decode [] = Some []"
| "utf8_decode (b0 # bs) =
     (if b0 < 128 then map_option (Cons b0) (utf8_decode bs)
      else if b0 < 192 then None
      else if b0 < 224 then
        (case bs of
           b1 # r \<Rightarrow>
             (let c = (b0 - 192) * 64 + (b1 - 128)
              in if continuation b1 \<and> 128 \<le> c
                 then map_option (Cons c) (utf8_decode r) else None)
         | _ \<Rightarrow> None)
      else if b0 < 240 then
        (case bs of
           b1 # b2 # r \<Rightarrow>
             (let c = (b0 - 224) * 4096 + (b1 - 128) * 64 + (b2 - 128)
              in if continuation b1 \<and> continuation b2 \<and> 2048 \<le> c
                    \<and> \<not> (55296 \<le> c \<and> c < 57344)
                 then map_option (Cons c) (utf8_decode r) else None)
         | _ \<Rightarrow> None)
      else if b0 < 248 then
        (case bs of
           b1 # b2 # b3 # r \<Rightarrow>
             (let c = (b0 - 240) * 262144 + (b1 - 128) * 4096
                        + (b2 - 128) * 64 + (b3 - 128)
              in if continuation b1 \<and> continuation b2 \<and> continuation b3
                    \<and> 65536 \<le> c \<and> c < 1114112
                 then map_option (Cons c) (utf8_decode r) else None)
         | _ \<Rightarrow> None)
      else None)"

text \<open>Modelled from the spec: \<open>ReadString\<close>, the same two-stage read, then the text.\<close>

definition ReadString :: "byte list \<Rightarrow> int \<Rightarrow> failure + (pystr \<times> int)" where
  "ReadString data off =
     (case ReadBytes data off of
        Inl e \<Rightarrow> Inl e
      | Inr (bs, off') \<Rightarrow>
          (case utf8_decode (map unat bs) of
             None \<Rightarrow> Inl MalformedText
           | Some s \<Rightarrow> Inr (s, off')))"

text \<open>
  Modelled from the spec: the dispatch on the marker (section 4.3, table of section 6).
  Markers 5 and 8 are reserved without a payload layout, \<open>Guid\<close> has no marker number;
  a marker the table gives no layout for is \<open>UnsupportedType\<close>.
\<close>

definition ReadValue :: "byte list \<Rightarrow> int \<Rightarrow> failure + (pyvalue \<times> int)" where
  "ReadValue data off =
     (case ReadMarker data off of
        Inl e \<Rightarrow> Inl e
      | Inr (m, off1) \<Rightarrow>
          if m = 0 then Inr (PyNone, off1)
          else if m = 1 then
            (case ReadInt32 data off1 of Inl e \<Rightarrow> Inl e | Inr (i, off2) \<Rightarrow> Inr (PyInt i, off2))
          else if m = 2 then
            (case ReadInt64 data off1 of Inl e \<Rightarrow> Inl e | Inr (i, off2) \<Rightarrow> Inr (PyInt i, off2))
          else if m = 3 then
            (case ReadDouble data off1 of Inl e \<Rightarrow> Inl e | Inr (w, off2) \<Rightarrow> Inr (PyFloat w, off2))
          else if m = 4 then
            (case ReadBoolean data off1 of Inl e \<Rightarrow> Inl e | Inr (b, off2) \<Rightarrow> Inr (PyBool b, off2))
          else if m = 6 then
            (case ReadString data off1 of Inl e \<Rightarrow> Inl e | Inr (s, off2) \<Rightarrow> Inr (PyStr s, off2))
          else if m = 7 then
            (case ReadBytes data off1 of Inl e \<Rightarrow> Inl e | Inr (b, off2) \<Rightarrow> Inr (PyBytes b, off2))
          else Inl UnsupportedType)"

text \<open>Modelled from the spec: one column: name length and name, marker, payload.\<close>

definition ReadColumn :: "byte list \<Rightarrow> int \<Rightarrow> failure + ((pystr \<times> pyvalue) \<times> int)" where
  "ReadColumn data off =
     (case ReadString data off of
        Inl e \<Rightarrow> Inl e
      | Inr (name, off1) \<Rightarrow>
          (case ReadValue data off1 of
             Inl e \<Rightarrow> Inl e
           | Inr (v, off2) \<Rightarrow> Inr ((name, v), off2)))"

text \<open>
  Modelled from the spec: the loop of the decoder, as many columns as the count says,
  with the cursor and the partially built row; the first failure ends it and the partial
  row is dropped.
\<close>

fun decode_columns :: "nat \<Rightarrow> byte list \<Rightarrow> int \<Rightarrow> row \<Rightarrow> failure + (row \<times> int)" where
  "decode_columns 0 data off acc = Inr (acc, off)"
| "decode_columns (Suc n) data off acc =
     (case ReadColumn data off of
        Inl e \<Rightarrow> Inl e
      | Inr (col, off') \<Rightarrow> decode_columns n data off' (acc @ [col]))"

text \<open>Modelled from the spec: \<open>decode\<close>, from cursor 0.\<close>

definition decode :: "byte list \<Rightarrow> failure + row" where
  "decode data =
     (case ReadUInt32 data 0 of
        Inl e \<Rightarrow> Inl e
      | Inr (count, off) \<Rightarrow>
          (case decode_columns count data off [] of
             Inl e \<Rightarrow> Inl e
           | Inr (r, off') \<Rightarrow> Inr r))"

section \<open>The quantities of the specification\<close>

text \<open>A little-endian payload read as a two's complement number of its own width.\<close>

definition le_signed :: "byte list \<Rightarrow> int" where
  "le_signed bs =
     (let u = int (le_nat bs); w = 2 ^ (8 * length bs)
      in if w \<le> 2 * u then u - w else u)"

text \<open>The number of bytes UTF-8 spends on a code point, and on a text.\<close>

definition cp_bytes :: "nat \<Rightarrow> nat" where
  "cp_bytes c = (if c < 128 then 1 else if c < 2048 then 2 else if c < 65536 then 3 else 4)"

definition utf8_length :: "pystr \<Rightarrow> nat" where
  "utf8_length s = sum_list (map cp_bytes s)"

text \<open>
  The payload size of a value by the table of section 6: nothing for \<open>Null\<close>, one byte
  for \<open>Boolean\<close>, 4 for \<open>Int32\<close>, 8 for \<open>Int64\<close> and \<open>Double\<close>, and a 4-byte length
  in front of the bytes of a \<open>String\<close> or \<open>Bytes\<close>. A value of no known variant is
  sized as the \<open>String\<close> of its text.
\<close>

fun payload_size :: "pyvalue \<Rightarrow> nat" where
  "payload_size PyNone = 0"
| "payload_size (PyBool b) = 1"
| "payload_size (PyInt i) = (if - 2147483648 \<le> i \<and> i \<le> 2147483647 then 4 else 8)"
| "payload_size (PyFloat w) = 8"
| "payload_size (PyStr s) = 4 + utf8_length s"
| "payload_size (PyBytes b) = 4 + length b"
| "payload_size (PyOther t) = 4 + utf8_length t"

definition column_size :: "pystr \<times> pyvalue \<Rightarrow> nat" where
  "column_size col = 4 + utf8_length (fst col) + 1 + payload_size (snd col)"

text \<open>
  A representable row: every value is of a variant the wire format has, the encoder
  accepts the row, and the buffer fits a span (whose \<open>Length\<close> is an \<open>int\<close>).
\<close>

fun known_variant :: "pyvalue \<Rightarrow> bool" where
  "known_variant (PyOther t) = False"
| "known_variant v = True"

definition fits_span :: "byte list \<Rightarrow> bool" where
  "fits_span data = (length data \<le> 2147483647)"

definition representable :: "row \<Rightarrow> bool" where
  "representable r =
     (list_all known_variant (map snd r)
      \<and> (case encode r of Inl e \<Rightarrow> False | Inr buffer \<Rightarrow> fits_span buffer))"

text \<open>What the decoder makes of a value: a value of no known variant comes back as its text.\<close>

fun as_decoded :: "pyvalue \<Rightarrow> pyvalue" where
  "as_decoded (PyOther t) = PyStr t"
| "as_decoded v = v"

text \<open>The row the decoder makes of a row.\<close>

definition decoded_row :: "row \<Rightarrow> row" where
  "decoded_row r = map (\<lambda>(name, v). (name, as_decoded v)) r"

text \<open>The bytes \<open>xs\<close> stand in \<open>data\<close> from position \<open>k\<close> on.\<close>

definition occurs_at :: "byte list \<Rightarrow> nat \<Rightarrow> byte list \<Rightarrow> bool" where
  "occurs_at data k xs = (k + length xs \<le> length data \<and> take (length xs) (drop k data) = xs)"

text \<open>The steps tile the bytes from \<open>start\<close> to \<open>stop\<close>.\<close>

fun tiles :: "nat \<Rightarrow> SerializationStep list \<Rightarrow> nat \<Rightarrow> bool" where
  "tiles start [] stop = (start = stop)"
| "tiles start (s # ss) stop = (offset s = start \<and> tiles (start + size' s) ss stop)"

text \<open>Text written in ASCII, and the rows of the examples of the source.\<close>

definition ascii :: "string \<Rightarrow> pystr" where
  "ascii s = map of_char s"

definition example_row :: row where
  "example_row =
     [(ascii ''UserId'', PyInt 42),
      (ascii ''Name'', PyStr (ascii ''John Doe'')),
      (ascii ''Active'', PyBool True)]"

text \<open>The texts \<open>Caf\<close>\<open>e\<close> with an acute accent (U+00E9), U+65E5 U+672C, and U+1F680.\<close>

definition cafe :: pystr where
  "cafe = [67, 97, 102, 233]"

definition nihon :: pystr where
  "nihon = [26085, 26412]"

definition rocket :: pystr where
  "rocket = [128640]"

text \<open>
  A buffer of one column named \<open>A\<close> whose value is a \<open>String\<close> with the length
  field \<open>FF FF FF 7F\<close>, the largest \<open>int\<close>, and no payload.
\<close>

definition crafted_buffer :: "byte list" where
  "crafted_buffer = [1, 0, 0, 0, 1, 0, 0, 0, 65, 6, 255, 255, 255, 127]"




definition unicode_row :: row where
  "unicode_row =
     [(ascii ''City'', PyStr cafe),
      (ascii ''Country'', PyStr nihon),
      (ascii ''Emoji'', PyStr rocket)]"

section \<open>Verified properties\<close>

subsection \<open>Little-endian numbers\<close>

lemma length_le_bytes [simp]: "length (le_bytes n v) = n"
  by (induction n arbitrary: v) simp_all

lemma unat_byte_of_nat: "n < 256 \<Longrightarrow> unat (of_nat n :: byte) = n"
  by (simp add: unat_of_nat)

lemma le_nat_le_bytes: "le_nat (le_bytes n v) = v mod 256 ^ n"
proof (induction n arbitrary: v)
  case 0
  show ?case by simp
next
  case (Suc n)
  have "le_nat (le_bytes (Suc n) v) = v mod 256 + 256 * ((v div 256) mod 256 ^ n)"
    by (simp add: Suc.IH unat_byte_of_nat)
  also have "\<dots> = v mod (256 * 256 ^ n)"
    by (simp add: mod_mult2_eq)
  finally show ?case by simp
qed

lemma mod_neg_shift:
  fixes i m :: int
  assumes "- m \<le> i" "i < 0"
  shows "i mod m = i + m"
proof -
  have "(i + m) mod m = i + m"
    by (rule mod_pos_pos_trivial) (use assms in simp_all)
  then show ?thesis by simp
qed

lemma le_signed_pack32:
  assumes "- 2147483648 \<le> i" "i \<le> 2147483647"
  shows "le_signed (le_bytes 4 (nat (i mod 4294967296))) = i"
proof -
  have m: "(nat (i mod 4294967296)) mod 256 ^ 4 = nat (i mod 4294967296)"
    by (simp add: nat_less_iff)
  show ?thesis
  proof (cases "0 \<le> i")
    case True
    then have "i mod 4294967296 = i" using assms by simp
    then show ?thesis using True assms
      by (simp add: le_signed_def le_nat_le_bytes m Let_def)
  next
    case False
    then have "i mod 4294967296 = i + 4294967296" using assms
      by (intro mod_neg_shift) simp_all
    then show ?thesis using False assms
      by (simp add: le_signed_def le_nat_le_bytes m Let_def)
  qed
qed

lemma le_signed_pack64:
  assumes "- 9223372036854775808 \<le> i" "i \<le> 9223372036854775807"
  shows "le_signed (le_bytes 8 (nat (i mod 18446744073709551616))) = i"
proof -
  have m: "(nat (i mod 18446744073709551616)) mod 256 ^ 8 = nat (i mod 18446744073709551616)"
    by (simp add: nat_less_iff)
  show ?thesis
  proof (cases "0 \<le> i")
    case True
    then have "i mod 18446744073709551616 = i" using assms by simp
    then show ?thesis using True assms
      by (simp add: le_signed_def le_nat_le_bytes m Let_def)
  next
    case False
    then have "i mod 18446744073709551616 = i + 18446744073709551616" using assms
      by (intro mod_neg_shift) simp_all
    then show ?thesis using False assms
      by (simp add: le_signed_def le_nat_le_bytes m Let_def)
  qed
qed

subsection \<open>Width of integers\<close>

text \<open>
  C5, as the code has it. An integer in the signed 32-bit range is encoded with the
  \<open>Int32\<close> marker (1) and 4 bytes that read back, little-endian and two's complement, as
  the integer; an integer outside that range and inside the signed 64-bit range is encoded
  with the \<open>Int64\<close> marker (2) and 8 such bytes; for an integer outside the signed 64-bit
  range \<open>struct.pack('<q', _)\<close> raises and nothing is encoded.
\<close>

theorem int_width_selection:
  "(- 2147483648 \<le> i \<and> i \<le> 2147483647 \<longrightarrow>
      (\<exists>bs. encode_value (PyInt i) = Inr (Int32, bs) \<and> length bs = 4 \<and> le_signed bs = i))
   \<and> ((i < - 2147483648 \<or> 2147483647 < i)
        \<and> - 9223372036854775808 \<le> i \<and> i \<le> 9223372036854775807 \<longrightarrow>
      (\<exists>bs. encode_value (PyInt i) = Inr (Int64, bs) \<and> length bs = 8 \<and> le_signed bs = i))
   \<and> (i < - 9223372036854775808 \<or> 9223372036854775807 < i \<longrightarrow>
      encode_value (PyInt i) = Inl StructError)
   \<and> marker_value Int32 = 1 \<and> marker_value Int64 = 2"
proof -
  have a: "\<exists>bs. encode_value (PyInt i) = Inr (Int32, bs) \<and> length bs = 4 \<and> le_signed bs = i"
    if "- 2147483648 \<le> i" "i \<le> 2147483647"
    using that by (simp add: encode_value.simps pack_i_def le_signed_pack32)
  have b: "\<exists>bs. encode_value (PyInt i) = Inr (Int64, bs) \<and> length bs = 8 \<and> le_signed bs = i"
    if "i < - 2147483648 \<or> 2147483647 < i" "- 9223372036854775808 \<le> i"
      "i \<le> 9223372036854775807"
    using that by (auto simp add: encode_value.simps pack_q_def le_signed_pack64)
  have c: "encode_value (PyInt i) = Inl StructError"
    if "i < - 9223372036854775808 \<or> 9223372036854775807 < i"
    using that by (auto simp add: encode_value.simps pack_q_def)
  show ?thesis using a b c by simp
qed

theorem int_width_selection_witness:
  "(\<exists>bs. encode_value (PyInt 42) = Inr (Int32, bs) \<and> length bs = 4 \<and> le_signed bs = 42)
   \<and> (\<exists>bs. encode_value (PyInt (- 2147483649)) = Inr (Int64, bs) \<and> length bs = 8
          \<and> le_signed bs = - 2147483649)
   \<and> encode_value (PyInt 9223372036854775808) = Inl StructError"
  using int_width_selection [of 42] int_width_selection [of "- 2147483649"]
    int_width_selection [of 9223372036854775808]
  by simp

text \<open>
  The claim as the specification words it, "any other integer is encoded with the Int64
  marker and an 8-byte payload", fails at \<open>2 ^ 63\<close>.
\<close>

theorem int64_overflow_counterexample:
  "\<not> (\<exists>bs. encode_value (PyInt 9223372036854775808) = Inr (Int64, bs) \<and> length bs = 8)"
  by (simp add: encode_value.simps pack_q_def)

subsection \<open>Booleans\<close>

text \<open>
  C9. Either boolean is encoded with the \<open>Boolean\<close> marker (4) and the one byte 1 or 0,
  not with the \<open>Int32\<close> marker, although a boolean passes the integer type test and its
  integer value lies in the signed 32-bit range: the boolean test comes first.
\<close>

theorem bool_before_int:
  "encode_value (PyBool True) = Inr (Boolean, [1])
   \<and> encode_value (PyBool False) = Inr (Boolean, [0])
   \<and> marker_value Boolean = 4 \<and> Boolean \<noteq> Int32
   \<and> isinstance_int (PyBool b)
   \<and> - 2147483648 \<le> int_of (PyBool b) \<and> int_of (PyBool b) \<le> 2147483647"
  by (simp add: encode_value.simps)

subsection \<open>The examples of the source\<close>

lemma serialize_example_row:
  "encode example_row =
     Inr [3, 0, 0, 0,
          6, 0, 0, 0, 85, 115, 101, 114, 73, 100, 1, 42, 0, 0, 0,
          4, 0, 0, 0, 78, 97, 109, 101, 6, 8, 0, 0, 0, 74, 111, 104, 110, 32, 68, 111, 101,
          6, 0, 0, 0, 65, 99, 116, 105, 118, 101, 4, 1]"
  by code_simp

text \<open>
  C7. The row \<open>{"UserId": 42, "Name": "John Doe", "Active": true}\<close> encodes to a
  buffer that starts with the column count 3 in 4 little-endian bytes, has the marker 1
  (\<open>Int32\<close>) at byte 14, the first column's marker, followed by 42 in 4 little-endian
  bytes, and is 52 bytes long.
\<close>

theorem example_row_encoding:
  "\<exists>buffer. encode example_row = Inr buffer
     \<and> take 4 buffer = [3, 0, 0, 0] \<and> le_nat (take 4 buffer) = 3
     \<and> buffer ! 14 = of_nat (marker_value Int32) \<and> marker_value Int32 = 1
     \<and> take 4 (drop 15 buffer) = [42, 0, 0, 0] \<and> le_signed (take 4 (drop 15 buffer)) = 42
     \<and> length buffer = 52"
proof (intro exI conjI)
  show "encode example_row =
     Inr [3, 0, 0, 0,
          6, 0, 0, 0, 85, 115, 101, 114, 73, 100, 1, 42, 0, 0, 0,
          4, 0, 0, 0, 78, 97, 109, 101, 6, 8, 0, 0, 0, 74, 111, 104, 110, 32, 68, 111, 101,
          6, 0, 0, 0, 65, 99, 116, 105, 118, 101, 4, 1]"
    by (rule serialize_example_row)
qed (code_simp+)

text \<open>
  C8. The three texts are encoded with the \<open>String\<close> marker and a length prefix of 5, 6
  and 4, the number of their UTF-8 bytes, where they have 4, 2 and 1 characters; the
  payload is their UTF-8 form byte for byte; the decoder reads each encoding back as the
  text, and the row of the three of them, the second example of the source, decodes to
  itself.
\<close>

theorem unicode_fidelity:
  "encode_value (PyStr cafe) = Inr (String, [5, 0, 0, 0, 67, 97, 102, 195, 169])
   \<and> encode_value (PyStr nihon) = Inr (String, [6, 0, 0, 0, 230, 151, 165, 230, 156, 172])
   \<and> encode_value (PyStr rocket) = Inr (String, [4, 0, 0, 0, 240, 159, 154, 128])
   \<and> length cafe = 4 \<and> length nihon = 2 \<and> length rocket = 1
   \<and> ReadValue [6, 5, 0, 0, 0, 67, 97, 102, 195, 169] 0 = Inr (PyStr cafe, 10)
   \<and> ReadValue [6, 6, 0, 0, 0, 230, 151, 165, 230, 156, 172] 0 = Inr (PyStr nihon, 11)
   \<and> ReadValue [6, 4, 0, 0, 0, 240, 159, 154, 128] 0 = Inr (PyStr rocket, 9)
   \<and> (case encode unicode_row of
         Inl e \<Rightarrow> False
       | Inr buffer \<Rightarrow> decode buffer = Inr unicode_row)"
  by (intro conjI; code_simp)

subsection \<open>The branches of the value encoder\<close>

lemma encode_value_PyNone: "encode_value PyNone = Inr (Null, [])"
  by (simp add: encode_value.simps)

lemma encode_value_PyBool: "encode_value (PyBool b) = Inr (Boolean, [if b then 1 else 0])"
  by (simp add: encode_value.simps)

lemma encode_value_PyInt:
  "encode_value (PyInt i) =
     (if - 2147483648 \<le> i \<and> i \<le> 2147483647
      then Inr (Int32, le_bytes 4 (nat (i mod 4294967296)))
      else if - 9223372036854775808 \<le> i \<and> i \<le> 9223372036854775807
      then Inr (Int64, le_bytes 8 (nat (i mod 18446744073709551616)))
      else Inl StructError)"
  by (simp add: encode_value.simps pack_i_def pack_q_def)

lemma encode_value_PyFloat: "encode_value (PyFloat w) = Inr (Double, le_bytes 8 (unat w))"
  by (simp add: encode_value.simps pack_d_def)

lemma encode_value_PyStr:
  "encode_value (PyStr s) =
     (case str_encode s of
        Inl e \<Rightarrow> Inl e
      | Inr encoded \<Rightarrow>
          if length encoded < 4294967296
          then Inr (String, le_bytes 4 (length encoded) @ encoded) else Inl StructError)"
  by (simp add: encode_value.simps pack_I_def split: sum.splits)

lemma encode_value_PyBytes:
  "encode_value (PyBytes b) =
     (if length b < 4294967296 then Inr (Bytes, le_bytes 4 (length b) @ b)
      else Inl StructError)"
  by (simp add: encode_value.simps pack_I_def)

lemma encode_value_PyOther: "encode_value (PyOther t) = encode_value (PyStr t)"
  by (subst encode_value.simps) simp

lemmas encode_value_cases =
  encode_value_PyNone encode_value_PyBool encode_value_PyInt encode_value_PyFloat
  encode_value_PyStr encode_value_PyBytes encode_value_PyOther

subsection \<open>Length of the encoding\<close>

lemma length_utf8_cp: "utf8_cp c = Some us \<Longrightarrow> length us = cp_bytes c"
  by (auto simp add: utf8_cp_def cp_bytes_def split: if_splits)

lemma length_str_encode: "str_encode s = Inr bs \<Longrightarrow> length bs = utf8_length s"
proof (induction s arbitrary: bs)
  case Nil
  then show ?case by (simp add: utf8_length_def)
next
  case (Cons c cs)
  from Cons.prems obtain us rest where
    us: "utf8_cp c = Some us" and rest: "str_encode cs = Inr rest"
    and bs: "bs = map of_nat us @ rest"
    by (auto split: option.splits sum.splits)
  from Cons.IH [OF rest] length_utf8_cp [OF us] show ?case
    by (simp add: bs utf8_length_def)
qed

lemma length_encode_value: "encode_value v = Inr (m, bs) \<Longrightarrow> length bs = payload_size v"
  by (cases v)
    (auto simp add: encode_value_cases length_str_encode split: if_splits sum.splits)

lemma length_serialize_columns:
  "serialize_columns r off buffer steps = Inr (buffer', steps') \<Longrightarrow>
   length buffer' = length buffer + sum_list (map column_size r)"
proof (induction r arbitrary: off buffer steps)
  case Nil
  then show ?case by simp
next
  case (Cons col rest)
  obtain name v where col: "col = (name, v)" by (cases col)
  from Cons.prems obtain name_bytes len_bytes type_marker value_bytes where
    n: "str_encode name = Inr name_bytes"
    and l: "pack_I (length name_bytes) = Inr len_bytes"
    and e: "encode_value v = Inr (type_marker, value_bytes)"
    and r: "serialize_columns rest
            (off + 4 + length name_bytes + 1 + length value_bytes)
            (buffer @ len_bytes @ name_bytes
               @ [of_nat (marker_value type_marker)] @ value_bytes)
            (steps @
              [mk_step off 4 len_bytes,
               mk_step (off + 4) (length name_bytes) name_bytes,
               mk_step (off + 4 + length name_bytes) 1
                 [of_nat (marker_value type_marker)],
               mk_step (off + 4 + length name_bytes + 1) (length value_bytes)
                 value_bytes]) = Inr (buffer', steps')"
    unfolding col by (auto split: sum.splits)
  from l have ll: "length len_bytes = 4"
    by (auto simp add: pack_I_def split: if_splits)
  from Cons.IH [OF r] show ?case
    by (simp add: col column_size_def ll length_str_encode [OF n] length_encode_value [OF e])
qed

text \<open>
  C4. When the encoder returns a buffer for a row, the length of the buffer is 4 plus,
  summed over the columns, 4, the UTF-8 length of the name, 1 and the payload size of the
  value; there is no other byte in it.
\<close>

theorem encoded_length:
  "encode r = Inr buffer \<Longrightarrow>
   length buffer = 4 + (\<Sum>(name, v) \<leftarrow> r. 4 + utf8_length name + 1 + payload_size v)"
proof -
  assume "encode r = Inr buffer"
  then obtain steps count_bytes where
    c: "pack_I (length r) = Inr count_bytes"
    and s: "serialize_columns r 4 count_bytes [mk_step 0 4 count_bytes] = Inr (buffer, steps)"
    by (auto simp add: encode_def serialize_def split: sum.splits)
  from c have cl: "length count_bytes = 4"
    by (auto simp add: pack_I_def split: if_splits)
  have f: "column_size = (\<lambda>(name, v). 4 + utf8_length name + 1 + payload_size v)"
    by (simp add: fun_eq_iff column_size_def)
  from length_serialize_columns [OF s] show ?thesis
    unfolding f cl by simp
qed

theorem encoded_length_witness:
  "\<exists>buffer. encode example_row = Inr buffer
     \<and> length buffer =
         4 + (\<Sum>(name, v) \<leftarrow> example_row. 4 + utf8_length name + 1 + payload_size v)
     \<and> length buffer = 52"
  using encoded_length [OF serialize_example_row] serialize_example_row by simp

subsection \<open>The steps of the visualisation\<close>

lemma tiles_append: "tiles a xs b \<Longrightarrow> tiles b ys c \<Longrightarrow> tiles a (xs @ ys) c"
  by (induction xs arbitrary: a) simp_all

lemma tiles_hd: "tiles a xs c \<Longrightarrow> xs \<noteq> [] \<Longrightarrow> offset (hd xs) = a"
  by (cases xs) simp_all

lemma tiles_next:
  "tiles a xs c \<Longrightarrow> Suc i < length xs \<Longrightarrow> offset (xs ! Suc i) = offset (xs ! i) + size' (xs ! i)"
proof (induction xs arbitrary: a i)
  case Nil
  then show ?case by simp
next
  case (Cons x xs)
  show ?case
  proof (cases i)
    case 0
    with Cons.prems show ?thesis by (cases xs) simp_all
  next
    case (Suc j)
    with Cons.prems Cons.IH [of "a + size' x" j] show ?thesis by simp
  qed
qed

lemma tiles_last: "tiles a xs c \<Longrightarrow> xs \<noteq> [] \<Longrightarrow> offset (last xs) + size' (last xs) = c"
  by (induction xs arbitrary: a) (auto split: if_splits)

lemma tiles_serialize_columns:
  "serialize_columns r off buffer steps = Inr (buffer', steps') \<Longrightarrow>
   tiles 0 steps off \<Longrightarrow> length buffer = off \<Longrightarrow>
   tiles 0 steps' (length buffer') \<and> (steps \<noteq> [] \<longrightarrow> steps' \<noteq> [])"
proof (induction r arbitrary: off buffer steps)
  case Nil
  then show ?case by simp
next
  case (Cons col rest)
  obtain name v where col: "col = (name, v)" by (cases col)
  from Cons.prems(1) obtain name_bytes len_bytes type_marker value_bytes where
    l: "pack_I (length name_bytes) = Inr len_bytes"
    and r: "serialize_columns rest
            (off + 4 + length name_bytes + 1 + length value_bytes)
            (buffer @ len_bytes @ name_bytes
               @ [of_nat (marker_value type_marker)] @ value_bytes)
            (steps @
              [mk_step off 4 len_bytes,
               mk_step (off + 4) (length name_bytes) name_bytes,
               mk_step (off + 4 + length name_bytes) 1
                 [of_nat (marker_value type_marker)],
               mk_step (off + 4 + length name_bytes + 1) (length value_bytes)
                 value_bytes]) = Inr (buffer', steps')"
    unfolding col by (auto split: sum.splits)
  from l have ll: "length len_bytes = 4"
    by (auto simp add: pack_I_def split: if_splits)
  have t: "tiles 0 (steps @
              [mk_step off 4 len_bytes,
               mk_step (off + 4) (length name_bytes) name_bytes,
               mk_step (off + 4 + length name_bytes) 1
                 [of_nat (marker_value type_marker)],
               mk_step (off + 4 + length name_bytes + 1) (length value_bytes)
                 value_bytes]) (off + 4 + length name_bytes + 1 + length value_bytes)"
    by (rule tiles_append [OF Cons.prems(2)]) (simp add: mk_step_def)
  from Cons.IH [OF r t] Cons.prems(3) ll show ?case by simp
qed

text \<open>
  C10. The steps returned with the buffer tile it: the first step starts at offset 0,
  each later step starts where the step before it ends, and the last step ends at the
  length of the buffer.
\<close>

theorem steps_tile_buffer:
  "serialize r = Inr (buffer, steps) \<Longrightarrow>
   steps \<noteq> [] \<and> offset (hd steps) = 0
   \<and> (\<forall>i. Suc i < length steps \<longrightarrow>
          offset (steps ! Suc i) = offset (steps ! i) + size' (steps ! i))
   \<and> offset (last steps) + size' (last steps) = length buffer"
proof -
  assume "serialize r = Inr (buffer, steps)"
  then obtain count_bytes where
    c: "pack_I (length r) = Inr count_bytes"
    and s: "serialize_columns r 4 count_bytes [mk_step 0 4 count_bytes] = Inr (buffer, steps)"
    by (auto simp add: serialize_def split: sum.splits)
  from c have cl: "length count_bytes = 4"
    by (auto simp add: pack_I_def split: if_splits)
  have "tiles 0 [mk_step 0 4 count_bytes] 4" by (simp add: mk_step_def)
  from tiles_serialize_columns [OF s this cl]
  have t: "tiles 0 steps (length buffer)" and ne: "steps \<noteq> []" by simp_all
  show ?thesis using tiles_hd [OF t ne] tiles_next [OF t] tiles_last [OF t ne] ne by blast
qed

lemma serialize_example_row_ok: "\<not> isl (serialize example_row)"
  by code_simp

theorem steps_tile_buffer_witness:
  "\<exists>buffer steps. serialize example_row = Inr (buffer, steps)
     \<and> steps \<noteq> [] \<and> offset (hd steps) = 0
     \<and> offset (last steps) + size' (last steps) = length buffer"
proof -
  obtain buffer steps where s: "serialize example_row = Inr (buffer, steps)"
    using serialize_example_row_ok by (cases "serialize example_row") auto
  from steps_tile_buffer [OF s] s show ?thesis by blast
qed

subsection \<open>Wrap-around and UTF-8\<close>

lemma wrap32_id: "- 2147483648 \<le> x \<Longrightarrow> x \<le> 2147483647 \<Longrightarrow> wrap32 x = x"
  by (simp add: wrap32_def)

lemma wrap64_id:
  "- 9223372036854775808 \<le> x \<Longrightarrow> x \<le> 9223372036854775807 \<Longrightarrow> wrap64 x = x"
  by (simp add: wrap64_def)

lemma wrap32_pack:
  assumes "- 2147483648 \<le> i" "i \<le> 2147483647"
  shows "wrap32 (i mod 4294967296) = i"
proof -
  have "(i mod 4294967296 + 2147483648) mod 4294967296 = (i + 2147483648) mod 4294967296"
    by (rule mod_add_left_eq)
  also have "\<dots> = i + 2147483648"
    by (rule mod_pos_pos_trivial) (use assms in simp_all)
  finally show ?thesis by (simp add: wrap32_def)
qed

lemma wrap64_pack:
  assumes "- 9223372036854775808 \<le> i" "i \<le> 9223372036854775807"
  shows "wrap64 (i mod 18446744073709551616) = i"
proof -
  have "(i mod 18446744073709551616 + 9223372036854775808) mod 18446744073709551616
          = (i + 9223372036854775808) mod 18446744073709551616"
    by (rule mod_add_left_eq)
  also have "\<dots> = i + 9223372036854775808"
    by (rule mod_pos_pos_trivial) (use assms in simp_all)
  finally show ?thesis by (simp add: wrap64_def)
qed

lemma utf8_cp_range: "utf8_cp c = Some us \<Longrightarrow> u \<in> set us \<Longrightarrow> u < 256"
  by (auto simp add: utf8_cp_def split: if_splits)

lemma utf8_decode_two:
  assumes "q < 32" "r < 64" "128 \<le> q * 64 + r"
  shows "utf8_decode ([192 + q, 128 + r] @ rest)
           = map_option (Cons (q * 64 + r)) (utf8_decode rest)"
  using assms by (simp add: continuation_def)

lemma utf8_decode_three:
  assumes "q < 16" "r < 64" "t < 64" "2048 \<le> q * 4096 + r * 64 + t"
    "\<not> (55296 \<le> q * 4096 + r * 64 + t \<and> q * 4096 + r * 64 + t < 57344)"
  shows "utf8_decode ([224 + q, 128 + r, 128 + t] @ rest)
           = map_option (Cons (q * 4096 + r * 64 + t)) (utf8_decode rest)"
  using assms by (simp add: continuation_def)

lemma utf8_decode_four:
  assumes "q < 8" "r < 64" "t < 64" "u < 64"
    "65536 \<le> q * 262144 + r * 4096 + t * 64 + u"
    "q * 262144 + r * 4096 + t * 64 + u < 1114112"
  shows "utf8_decode ([240 + q, 128 + r, 128 + t, 128 + u] @ rest)
           = map_option (Cons (q * 262144 + r * 4096 + t * 64 + u)) (utf8_decode rest)"
  using assms by (simp add: continuation_def)

lemma split_two: "(c::nat) = (c div 64) * 64 + c mod 64"
  by simp

lemma split_three: "(c::nat) = (c div 4096) * 4096 + ((c div 64) mod 64) * 64 + c mod 64"
proof -
  have "c mod 4096 = 64 * (c div 64 mod 64) + c mod 64"
    using mod_mult2_eq [of c 64 64] by simp
  moreover have "c = (c div 4096) * 4096 + c mod 4096" by simp
  ultimately show ?thesis by simp
qed

lemma split_four:
  "(c::nat) = (c div 262144) * 262144 + ((c div 4096) mod 64) * 4096
        + ((c div 64) mod 64) * 64 + c mod 64"
proof -
  have "c mod 4096 = 64 * (c div 64 mod 64) + c mod 64"
    using mod_mult2_eq [of c 64 64] by simp
  moreover have "c mod 262144 = 4096 * (c div 4096 mod 64) + c mod 4096"
    using mod_mult2_eq [of c 4096 64] by simp
  moreover have "c = (c div 262144) * 262144 + c mod 262144" by simp
  ultimately show ?thesis by simp
qed

lemma lead_two: "(c::nat) < 2048 \<Longrightarrow> c div 64 < 32"
  by (rule less_mult_imp_div_less) simp

lemma lead_three: "(c::nat) < 65536 \<Longrightarrow> c div 4096 < 16"
  by (rule less_mult_imp_div_less) simp

lemma lead_four: "(c::nat) < 1114112 \<Longrightarrow> c div 262144 < 8"
  by (rule less_mult_imp_div_less) simp

lemma utf8_decode_cp:
  assumes "utf8_cp c = Some us"
  shows "utf8_decode (us @ rest) = map_option (Cons c) (utf8_decode rest)"
proof -
  consider (one) "c < 128" | (two) "128 \<le> c" "c < 2048"
    | (three) "2048 \<le> c" "c < 65536" "\<not> (55296 \<le> c \<and> c < 57344)"
    | (four) "65536 \<le> c" "c < 1114112"
    using assms by (auto simp add: utf8_cp_def split: if_splits)
  then show ?thesis
  proof cases
    case one
    with assms show ?thesis by (auto simp add: utf8_cp_def)
  next
    case two
    then have us: "us = [192 + c div 64, 128 + c mod 64]"
      using assms by (auto simp add: utf8_cp_def)
    have "utf8_decode ([192 + c div 64, 128 + c mod 64] @ rest)
            = map_option (Cons ((c div 64) * 64 + c mod 64)) (utf8_decode rest)"
      by (rule utf8_decode_two)
        (use two lead_two [of c] split_two [of c, symmetric] in simp_all)
    then show ?thesis unfolding us split_two [of c, symmetric] .
  next
    case three
    then have us: "us = [224 + c div 4096, 128 + (c div 64) mod 64, 128 + c mod 64]"
      using assms by (auto simp add: utf8_cp_def)
    have "utf8_decode ([224 + c div 4096, 128 + (c div 64) mod 64, 128 + c mod 64] @ rest)
            = map_option (Cons ((c div 4096) * 4096 + ((c div 64) mod 64) * 64 + c mod 64))
                (utf8_decode rest)"
      by (rule utf8_decode_three)
        (use three lead_three [of c] split_three [of c, symmetric] in simp_all)
    then show ?thesis unfolding us split_three [of c, symmetric] .
  next
    case four
    then have us: "us = [240 + c div 262144, 128 + (c div 4096) mod 64,
              128 + (c div 64) mod 64, 128 + c mod 64]"
      using assms by (auto simp add: utf8_cp_def)
    have "utf8_decode ([240 + c div 262144, 128 + (c div 4096) mod 64,
              128 + (c div 64) mod 64, 128 + c mod 64] @ rest)
            = map_option (Cons ((c div 262144) * 262144 + ((c div 4096) mod 64) * 4096
                + ((c div 64) mod 64) * 64 + c mod 64)) (utf8_decode rest)"
      by (rule utf8_decode_four)
        (use four lead_four [of c] split_four [of c, symmetric] in simp_all)
    then show ?thesis unfolding us split_four [of c, symmetric] .
  qed
qed

lemma map_unat_of_nat:
  "\<forall>u \<in> set us. u < 256 \<Longrightarrow> map unat (map of_nat us :: byte list) = us"
  by (induction us) (simp_all add: unat_byte_of_nat)

lemma utf8_decode_str_encode: "str_encode s = Inr bs \<Longrightarrow> utf8_decode (map unat bs) = Some s"
proof (induction s arbitrary: bs)
  case Nil
  then show ?case by simp
next
  case (Cons c cs)
  from Cons.prems obtain us rest where
    us: "utf8_cp c = Some us" and rest: "str_encode cs = Inr rest"
    and bs: "bs = map of_nat us @ rest"
    by (auto split: option.splits sum.splits)
  have "map unat (map of_nat us :: byte list) = us"
    using utf8_cp_range [OF us] by (intro map_unat_of_nat) simp
  then have "map unat bs = us @ map unat rest" by (simp add: bs)
  then show ?case using utf8_decode_cp [OF us] Cons.IH [OF rest] by simp
qed

subsection \<open>Reading what the encoder wrote\<close>

lemma occurs_at_append:
  assumes "occurs_at data k (xs @ ys)"
  shows "occurs_at data k xs" and "occurs_at data (k + length xs) ys"
proof -
  from assms have len: "k + length xs + length ys \<le> length data"
    and eq: "take (length xs + length ys) (drop k data) = xs @ ys"
    by (simp_all add: occurs_at_def)
  have "take (length xs) (take (length xs + length ys) (drop k data)) = take (length xs) (xs @ ys)"
    by (simp only: eq)
  then have "take (length xs) (drop k data) = xs" by simp
  with len show "occurs_at data k xs" by (simp add: occurs_at_def)
  have "drop (length xs) (take (length xs + length ys) (drop k data)) = drop (length xs) (xs @ ys)"
    by (simp only: eq)
  then have "take (length ys) (drop (k + length xs) data) = ys"
    by (simp add: drop_take add.commute)
  with len show "occurs_at data (k + length xs) ys" by (simp add: occurs_at_def)
qed

lemma occurs_at_Cons:
  assumes "occurs_at data k (x # ys)"
  shows "occurs_at data k [x]" and "occurs_at data (k + 1) ys"
  using occurs_at_append [of data k "[x]" ys] assms by simp_all

lemma occurs_at_mid: "occurs_at (pre @ xs @ post) (length pre) xs"
  by (simp add: occurs_at_def)

lemma read_fixed_at:
  assumes "fits_span data" "occurs_at data k bs"
  shows "read_fixed data (int k) (int (length bs)) = Inr (bs, int (k + length bs))"
proof -
  from assms have "int k + int (length bs) \<le> 2147483647"
    by (simp add: fits_span_def occurs_at_def)
  then have "wrap32 (int k + int (length bs)) = int k + int (length bs)"
    by (intro wrap32_id) simp_all
  with assms(2) show ?thesis
    by (simp add: read_fixed_def fixed_check_def slice_def occurs_at_def)
qed

lemma ReadInt32_at:
  assumes "fits_span data" "occurs_at data k (le_bytes 4 x)"
  shows "ReadInt32 data (int k) = Inr (wrap32 (int (x mod 4294967296)), int (k + 4))"
  using read_fixed_at [OF assms] by (simp add: ReadInt32_def le_nat_le_bytes)

lemma ReadUInt32_at:
  assumes "fits_span data" "occurs_at data k (le_bytes 4 x)"
  shows "ReadUInt32 data (int k) = Inr (x mod 4294967296, int (k + 4))"
  using read_fixed_at [OF assms] by (simp add: ReadUInt32_def le_nat_le_bytes)

lemma ReadInt64_at:
  assumes "fits_span data" "occurs_at data k (le_bytes 8 x)"
  shows "ReadInt64 data (int k) = Inr (wrap64 (int (x mod 18446744073709551616)), int (k + 8))"
  using read_fixed_at [OF assms] by (simp add: ReadInt64_def le_nat_le_bytes)

lemma ReadDouble_at:
  assumes "fits_span data" "occurs_at data k (le_bytes 8 (unat w))"
  shows "ReadDouble data (int k) = Inr (w, int (k + 8))"
proof -
  have "unat w < 18446744073709551616" using unsigned_less [of w] by simp
  then have "unat w mod 18446744073709551616 = unat w" by simp
  then show ?thesis
    using read_fixed_at [OF assms] by (simp add: ReadDouble_def le_nat_le_bytes)
qed

lemma ReadBoolean_at:
  assumes "fits_span data" "occurs_at data k [b]"
  shows "ReadBoolean data (int k) = Inr (b \<noteq> 0, int (k + 1))"
  using read_fixed_at [OF assms] by (simp add: ReadBoolean_def unat_gt_0)

lemma ReadMarker_at:
  assumes "fits_span data" "occurs_at data k [of_nat m]" "m < 256"
  shows "ReadMarker data (int k) = Inr (m, int (k + 1))"
  using read_fixed_at [OF assms(1,2)] assms(3)
  by (simp add: ReadMarker_def unat_byte_of_nat)

lemma ReadBytes_at:
  assumes "fits_span data" "occurs_at data k (le_bytes 4 (length b) @ b)"
  shows "ReadBytes data (int k) = Inr (b, int (k + 4 + length b))"
proof -
  from occurs_at_append [OF assms(2)]
  have l: "occurs_at data k (le_bytes 4 (length b))" and p: "occurs_at data (k + 4) b"
    by simp_all
  from assms have bound: "int k + 4 + int (length b) \<le> 2147483647"
    by (simp add: fits_span_def occurs_at_def)
  then have small: "length b mod 4294967296 = length b" by simp
  have w: "wrap32 (int (length b)) = int (length b)"
    using bound by (intro wrap32_id) simp_all
  have w2: "wrap32 (int k + 4 + int (length b)) = int k + 4 + int (length b)"
    using bound by (intro wrap32_id) simp_all
  from ReadInt32_at [OF assms(1) l]
  have r: "ReadInt32 data (int k) = Inr (int (length b), int k + 4)"
    by (simp add: small w)
  from p have s: "slice data (int k + 4) (int (length b)) = Inr b"
    by (simp add: slice_def occurs_at_def nat_add_distrib)
  from p have c: "\<not> length_check data (int k + 4) (int (length b))"
    by (simp add: length_check_def w2 occurs_at_def)
  show ?thesis by (simp add: ReadBytes_def r s c w2)
qed

lemma ReadString_at:
  assumes "fits_span data" "str_encode s = Inr enc"
    "occurs_at data k (le_bytes 4 (length enc) @ enc)"
  shows "ReadString data (int k) = Inr (s, int (k + 4 + length enc))"
  using ReadBytes_at [OF assms(1,3)] utf8_decode_str_encode [OF assms(2)]
  by (simp add: ReadString_def)

lemma marker_value_byte: "marker_value m < 256"
  by (cases m) simp_all

lemma ReadValue_at:
  assumes "fits_span data" "encode_value v = Inr (m, V)"
    "occurs_at data k (of_nat (marker_value m) # V)"
  shows "ReadValue data (int k) = Inr (as_decoded v, int (k + 1 + length V))"
proof -
  from occurs_at_Cons [OF assms(3)]
  have mk: "occurs_at data k [of_nat (marker_value m)]" and pv: "occurs_at data (k + 1) V"
    by simp_all
  from ReadMarker_at [OF assms(1) mk marker_value_byte]
  have rm: "ReadMarker data (int k) = Inr (marker_value m, int k + 1)" by simp
  have str: "ReadValue data (int k) = Inr (PyStr s, int (k + 1 + length V))"
    if "encode_value (PyStr s) = Inr (m, V)" for s
  proof -
    from that obtain enc where e: "str_encode s = Inr enc"
      and m: "m = String" and V: "V = le_bytes 4 (length enc) @ enc"
      by (auto simp add: encode_value_PyStr split: sum.splits if_splits)
    from ReadString_at [OF assms(1) e pv [unfolded V]] rm
    show ?thesis by (simp add: ReadValue_def m V ac_simps)
  qed
  show ?thesis
  proof (cases v)
    case PyNone
    with assms(2) have "m = Null" "V = []" by (simp_all add: encode_value_PyNone)
    with rm show ?thesis by (simp add: ReadValue_def PyNone ac_simps)
  next
    case (PyBool b)
    with assms(2) have m: "m = Boolean" and V: "V = [if b then 1 else 0]"
      by (simp_all add: encode_value_PyBool)
    from ReadBoolean_at [OF assms(1) pv [unfolded V]] rm
    show ?thesis by (simp add: ReadValue_def PyBool m V ac_simps)
  next
    case (PyInt i)
    show ?thesis
    proof (cases "- 2147483648 \<le> i \<and> i \<le> 2147483647")
      case True
      with assms(2) PyInt have m: "m = Int32" and V: "V = le_bytes 4 (nat (i mod 4294967296))"
        by (simp_all add: encode_value_PyInt)
      have "int (nat (i mod 4294967296) mod 4294967296) = i mod 4294967296"
        by (simp add: nat_mod_distrib)
      with ReadInt32_at [OF assms(1) pv [unfolded V]] True
      have "ReadInt32 data (int k + 1) = Inr (i, int k + 5)"
        by (simp add: wrap32_pack ac_simps)
      with rm show ?thesis by (simp add: ReadValue_def PyInt m V ac_simps)
    next
      case False
      with assms(2) PyInt have m: "m = Int64"
        and V: "V = le_bytes 8 (nat (i mod 18446744073709551616))"
        and range: "- 9223372036854775808 \<le> i" "i \<le> 9223372036854775807"
        by (simp_all add: encode_value_PyInt split: if_splits)
      have "int (nat (i mod 18446744073709551616) mod 18446744073709551616)
              = i mod 18446744073709551616"
        by (simp add: nat_mod_distrib)
      with ReadInt64_at [OF assms(1) pv [unfolded V]] range
      have "ReadInt64 data (int k + 1) = Inr (i, int k + 9)"
        by (simp add: wrap64_pack ac_simps)
      with rm show ?thesis by (simp add: ReadValue_def PyInt m V ac_simps)
    qed
  next
    case (PyFloat w)
    with assms(2) have m: "m = Double" and V: "V = le_bytes 8 (unat w)"
      by (simp_all add: encode_value_PyFloat)
    from ReadDouble_at [OF assms(1) pv [unfolded V]] rm
    show ?thesis by (simp add: ReadValue_def PyFloat m V ac_simps)
  next
    case (PyStr s)
    with assms(2) str [of s] show ?thesis by simp
  next
    case (PyBytes b)
    with assms(2) have m: "m = Bytes" and V: "V = le_bytes 4 (length b) @ b"
      by (simp_all add: encode_value_PyBytes split: if_splits)
    from ReadBytes_at [OF assms(1) pv [unfolded V]] rm
    show ?thesis by (simp add: ReadValue_def PyBytes m V ac_simps)
  next
    case (PyOther t)
    with assms(2) str [of t] show ?thesis by (simp add: encode_value_PyOther)
  qed
qed

lemma ReadColumn_at:
  assumes "fits_span data" "str_encode name = Inr nb" "encode_value v = Inr (m, V)"
    "occurs_at data k (le_bytes 4 (length nb) @ nb @ of_nat (marker_value m) # V)"
  shows "ReadColumn data (int k)
           = Inr ((name, as_decoded v), int (k + 4 + length nb + 1 + length V))"
proof -
  from assms(4)
  have "occurs_at data k ((le_bytes 4 (length nb) @ nb) @ of_nat (marker_value m) # V)"
    by simp
  from occurs_at_append [OF this]
  have n: "occurs_at data k (le_bytes 4 (length nb) @ nb)"
    and p: "occurs_at data (k + 4 + length nb) (of_nat (marker_value m) # V)"
    by (simp_all add: add.assoc)
  from ReadString_at [OF assms(1,2) n] ReadValue_at [OF assms(1,3) p]
  show ?thesis by (simp add: ReadColumn_def)
qed

lemma decode_columns_at:
  "serialize_columns r off buffer steps = Inr (buffer', steps') \<Longrightarrow>
   \<exists>cols. buffer' = buffer @ cols
      \<and> (\<forall>data k acc. fits_span data \<longrightarrow> occurs_at data k cols \<longrightarrow>
            decode_columns (length r) data (int k) acc
              = Inr (acc @ decoded_row r, int (k + length cols)))"
proof (induction r arbitrary: off buffer steps)
  case Nil
  then show ?case by (simp add: decoded_row_def)
next
  case (Cons col rest)
  obtain name v where col: "col = (name, v)" by (cases col)
  from Cons.prems obtain nb len_bytes m V where
    n: "str_encode name = Inr nb"
    and l: "pack_I (length nb) = Inr len_bytes"
    and e: "encode_value v = Inr (m, V)"
    and r: "serialize_columns rest
            (off + 4 + length nb + 1 + length V)
            (buffer @ len_bytes @ nb @ [of_nat (marker_value m)] @ V)
            (steps @
              [mk_step off 4 len_bytes,
               mk_step (off + 4) (length nb) nb,
               mk_step (off + 4 + length nb) 1 [of_nat (marker_value m)],
               mk_step (off + 4 + length nb + 1) (length V) V]) = Inr (buffer', steps')"
    unfolding col by (auto split: sum.splits)
  from l have lb: "len_bytes = le_bytes 4 (length nb)"
    by (auto simp add: pack_I_def split: if_splits)
  from Cons.IH [OF r] obtain cols where
    b: "buffer' = (buffer @ len_bytes @ nb @ [of_nat (marker_value m)] @ V) @ cols"
    and ih: "\<And>data k acc. fits_span data \<Longrightarrow> occurs_at data k cols \<Longrightarrow>
            decode_columns (length rest) data (int k) acc
              = Inr (acc @ decoded_row rest, int (k + length cols))"
    by blast
  let ?c = "le_bytes 4 (length nb) @ nb @ of_nat (marker_value m) # V"
  have "decode_columns (length (col # rest)) data (int k) acc
          = Inr (acc @ decoded_row (col # rest), int (k + length (?c @ cols)))"
    if f: "fits_span data" and o: "occurs_at data k (?c @ cols)" for data k acc
  proof -
    from occurs_at_append [OF o]
    have c: "occurs_at data k ?c" and t: "occurs_at data (k + length ?c) cols"
      by simp_all
    from ReadColumn_at [OF f n e c] ih [OF f t, of "acc @ [(name, as_decoded v)]"]
    show ?thesis by (simp add: col decoded_row_def ac_simps)
  qed
  moreover have "buffer' = buffer @ ?c @ cols" by (simp add: b lb)
  ultimately show ?case by blast
qed

lemma roundtrip_columns:
  assumes "encode r = Inr buffer" "fits_span buffer"
  shows "ReadUInt32 buffer 0 = Inr (length r, 4)"
    and "decode_columns (length r) buffer 4 [] = Inr (decoded_row r, int (length buffer))"
proof -
  from assms(1) obtain steps count_bytes where
    c: "pack_I (length r) = Inr count_bytes"
    and s: "serialize_columns r 4 count_bytes [mk_step 0 4 count_bytes] = Inr (buffer, steps)"
    by (auto simp add: encode_def serialize_def split: sum.splits)
  from c have cb: "count_bytes = le_bytes 4 (length r)" and small: "length r < 4294967296"
    by (auto simp add: pack_I_def split: if_splits)
  from decode_columns_at [OF s] obtain cols where
    b: "buffer = le_bytes 4 (length r) @ cols"
    and d: "\<And>data k acc. fits_span data \<Longrightarrow> occurs_at data k cols \<Longrightarrow>
            decode_columns (length r) data (int k) acc
              = Inr (acc @ decoded_row r, int (k + length cols))"
    unfolding cb by blast
  have o: "occurs_at buffer 0 (le_bytes 4 (length r) @ cols)"
    using occurs_at_mid [of "[]" "le_bytes 4 (length r) @ cols" "[]"] by (simp add: b)
  from occurs_at_append [OF o]
  have o1: "occurs_at buffer 0 (le_bytes 4 (length r))" and o2: "occurs_at buffer 4 cols"
    by simp_all
  from ReadUInt32_at [OF assms(2) o1] small
  show "ReadUInt32 buffer 0 = Inr (length r, 4)" by simp
  from d [OF assms(2) o2, of "[]"]
  show "decode_columns (length r) buffer 4 [] = Inr (decoded_row r, int (length buffer))"
    by (simp add: b)
qed

lemma roundtrip_general:
  assumes "encode r = Inr buffer" "fits_span buffer"
  shows "decode buffer = Inr (decoded_row r)"
  using roundtrip_columns [OF assms] by (simp add: decode_def)

lemma decoded_row_known: "list_all known_variant (map snd r) \<Longrightarrow> decoded_row r = r"
proof (induction r)
  case Nil
  show ?case by (simp add: decoded_row_def)
next
  case (Cons col r)
  obtain name v where col: "col = (name, v)" by (cases col)
  from Cons.prems have "known_variant v" by (simp add: col)
  then have "as_decoded v = v" by (cases v) simp_all
  with Cons show ?case by (simp add: decoded_row_def col)
qed

text \<open>
  C1. For a representable row the encoder returns a buffer, and the decoder reads that
  buffer back as the row itself: the same columns in the same order, with the same names
  and the same values.
\<close>

theorem decode_encode:
  "representable r \<Longrightarrow> \<exists>buffer. encode r = Inr buffer \<and> decode buffer = Inr r"
proof -
  assume rep: "representable r"
  then obtain buffer where e: "encode r = Inr buffer" and f: "fits_span buffer"
    by (auto simp add: representable_def split: sum.splits)
  from rep have "decoded_row r = r" by (simp add: representable_def decoded_row_known)
  with roundtrip_general [OF e f] e show ?thesis by simp
qed

lemma representable_example_row: "representable example_row"
  by code_simp

theorem decode_encode_witness:
  "representable example_row
   \<and> (\<exists>buffer. encode example_row = Inr buffer \<and> decode buffer = Inr example_row)"
  using decode_encode [OF representable_example_row] representable_example_row by simp

subsection \<open>Reading a truncated buffer\<close>

























subsection \<open>Values of no known variant\<close>

text \<open>
  C6, as the code has it. A value of no known variant is encoded as the \<open>String\<close> of
  its text: where the text has a UTF-8 form whose length fits the length field, the
  encoder returns the \<open>String\<close> marker (6) with the length-prefixed UTF-8 of the text;
  otherwise it raises the exception of the library call that could not encode the text,
  and never returns anything else. Where the encoding fits a span, the decoder reads it
  back as the \<open>String\<close> value of that text, also inside a row.
\<close>

theorem unknown_type_fallback:
  "encode_value (PyOther t) =
     (case str_encode t of
        Inl e \<Rightarrow> Inl e
      | Inr enc \<Rightarrow>
          if length enc < 4294967296
          then Inr (String, le_bytes 4 (length enc) @ enc) else Inl StructError)
   \<and> marker_value String = 6
   \<and> (\<forall>enc. str_encode t = Inr enc \<and> length enc + 5 \<le> 2147483647 \<longrightarrow>
          encode_value (PyOther t) = Inr (String, le_bytes 4 (length enc) @ enc)
          \<and> ReadValue (of_nat (marker_value String) # le_bytes 4 (length enc) @ enc) 0
              = Inr (PyStr t, int (length enc) + 5))
   \<and> (\<forall>name buffer. encode [(name, PyOther t)] = Inr buffer \<and> fits_span buffer \<longrightarrow>
          decode buffer = Inr [(name, PyStr t)])"
proof (intro conjI allI impI)
  show "encode_value (PyOther t) =
     (case str_encode t of
        Inl e \<Rightarrow> Inl e
      | Inr enc \<Rightarrow>
          if length enc < 4294967296
          then Inr (String, le_bytes 4 (length enc) @ enc) else Inl StructError)"
    by (simp add: encode_value_PyOther encode_value_PyStr)
  show "marker_value String = 6" by simp
next
  fix enc
  assume a: "str_encode t = Inr enc \<and> length enc + 5 \<le> 2147483647"
  then show e: "encode_value (PyOther t) = Inr (String, le_bytes 4 (length enc) @ enc)"
    by (simp add: encode_value_PyOther encode_value_PyStr)
  let ?data = "of_nat (marker_value String) # le_bytes 4 (length enc) @ enc"
  from a have f: "fits_span ?data" by (simp add: fits_span_def)
  have o: "occurs_at ?data 0 ?data"
    using occurs_at_mid [of "[]" ?data "[]"] by simp
  from ReadValue_at [OF f e o]
  show "ReadValue ?data 0 = Inr (PyStr t, int (length enc) + 5)" by simp
next
  fix name buffer
  assume "encode [(name, PyOther t)] = Inr buffer \<and> fits_span buffer"
  then have "decode buffer = Inr (decoded_row [(name, PyOther t)])"
    by (intro roundtrip_general) simp_all
  then show "decode buffer = Inr [(name, PyStr t)]" by (simp add: decoded_row_def)
qed

lemma str_encode_x: "str_encode (ascii ''3.5'') = Inr [51, 46, 53]"
  by code_simp

theorem unknown_type_fallback_witness:
  "str_encode (ascii ''3.5'') = Inr [51, 46, 53]
   \<and> encode_value (PyOther (ascii ''3.5'')) = Inr (String, [3, 0, 0, 0, 51, 46, 53])
   \<and> ReadValue [6, 3, 0, 0, 0, 51, 46, 53] 0 = Inr (PyStr (ascii ''3.5''), 8)"
proof -
  from unknown_type_fallback [of "ascii ''3.5''"] str_encode_x
  have "encode_value (PyOther (ascii ''3.5''))
          = Inr (String, le_bytes 4 (length [51, 46, 53 :: byte]) @ [51, 46, 53])
        \<and> ReadValue (of_nat (marker_value String) # le_bytes 4 (length [51, 46, 53 :: byte])
              @ [51, 46, 53]) 0
            = Inr (PyStr (ascii ''3.5''), int (length [51, 46, 53 :: byte]) + 5)"
    by simp
  moreover have "le_bytes 4 (length [51, 46, 53 :: byte]) = [3, 0, 0, 0]" by code_simp
  ultimately show ?thesis using str_encode_x by simp
qed

text \<open>
  The claim as the specification words it, for every value of no known variant, fails at
  a value whose text is the lone surrogate U+D800: \<open>str.encode\<close> raises and nothing
  is encoded.
\<close>

theorem surrogate_text_counterexample:
  "encode_value (PyOther [55296]) = Inl UnicodeEncodeError
   \<and> \<not> (\<exists>payload. encode_value (PyOther [55296]) = Inr (String, payload))"
proof -
  have "encode_value (PyOther [55296]) = Inl UnicodeEncodeError" by code_simp
  then show ?thesis by simp
qed

subsection \<open>The length check\<close>

text \<open>
  C3. The check on a length field, \<open>length < 0 || offset + length > data.Length\<close>,
  adds two \<open>int\<close>s. In \<open>crafted_buffer\<close> the length field of the \<open>String\<close> is
  2147483647 and the cursor after it is 14, the length of the buffer: the length added to
  the offset exceeds the buffer length, but the sum wraps around to a negative number and
  the check does not fire. The decoder goes on to the copy of the payload, sized from the
  length field, and it is the range check of that copy that stops it: the result is
  neither \<open>InvalidLength\<close> nor \<open>TruncatedData\<close>.
\<close>

theorem length_check_overflow:
  "ReadInt32 crafted_buffer 10 = Inr (2147483647, 14)
   \<and> int (length crafted_buffer) < 14 + 2147483647
   \<and> \<not> length_check crafted_buffer 14 2147483647
   \<and> ReadString crafted_buffer 10 = Inl OutOfRange
   \<and> decode crafted_buffer = Inl OutOfRange"
  by (intro conjI; code_simp)

end
